theory Spec2Isabelle
  imports Main "HOL-Library.Sublist"
begin

section \<open>Exceptions\<close>

text \<open>
  Every exception that report.py can raise, or lets pass through, is a value. A function
  that can raise returns \<open>exn + 'a\<close>, with \<open>Inl\<close> for the exception. \<open>SystemExit\<close>
  carries the status given to \<open>sys.exit\<close>.
\<close>

datatype exn =
    ValueError
  | IndexError
  | TypeError
  | AttributeError
  | JSONDecodeError
  | OSError
  | SystemExit int

section \<open>The calendar arithmetic of datetime.date\<close>

text \<open>
  report.py obtains every date from \<open>datetime.date\<close>: \<open>date.today\<close>,
  \<open>date.fromisocalendar\<close>, \<open>isocalendar\<close>, the attributes \<open>month\<close> and \<open>day\<close>,
  and \<open>strftime\<close>. The definitions of this section follow the module's reference
  implementation (CPython, Lib/_pydatetime.py) function by function, with the leading
  underscore of the private names dropped. Python integers are unbounded and \<open>//\<close>,
  \<open>%\<close> round towards minus infinity, as \<open>div\<close> and \<open>mod\<close> on \<open>int\<close> do.
\<close>

definition MINYEAR :: int where
  "MINYEAR = 1"

definition MAXYEAR :: int where
  "MAXYEAR = 9999"

text \<open>Both tables are indexed by the month, 1 to 12; index 0 holds a placeholder.\<close>

definition DAYS_IN_MONTH :: "int list" where
  "DAYS_IN_MONTH = [-1, 31, 28, 31, 30, 31, 30, 31, 31, 30, 31, 30, 31]"

definition DAYS_BEFORE_MONTH :: "int list" where
  "DAYS_BEFORE_MONTH = [-1, 0, 31, 59, 90, 120, 151, 181, 212, 243, 273, 304, 334]"

definition is_leap :: "int \<Rightarrow> bool" where
  "is_leap y \<longleftrightarrow> y mod 4 = 0 \<and> (y mod 100 \<noteq> 0 \<or> y mod 400 = 0)"

definition days_before_year :: "int \<Rightarrow> int" where
  "days_before_year yr = (let y = yr - 1 in y * 365 + y div 4 - y div 100 + y div 400)"

definition days_in_month :: "int \<Rightarrow> int \<Rightarrow> int" where
  "days_in_month yr mon = (if mon = 2 \<and> is_leap yr then 29 else DAYS_IN_MONTH ! nat mon)"

definition days_before_month :: "int \<Rightarrow> int \<Rightarrow> int" where
  "days_before_month yr mon =
     DAYS_BEFORE_MONTH ! nat mon + (if mon > 2 \<and> is_leap yr then 1 else 0)"

definition ymd2ord :: "int \<Rightarrow> int \<Rightarrow> int \<Rightarrow> int" where
  "ymd2ord yr mon d = days_before_year yr + days_before_month yr mon + d"

definition DI400Y :: int where
  "DI400Y = days_before_year 401"

definition DI100Y :: int where
  "DI100Y = days_before_year 101"

definition DI4Y :: int where
  "DI4Y = days_before_year 5"

text \<open>
  \<open>ord2ymd\<close> turns a proleptic Gregorian ordinal (1 is 0001-01-01) into year, month and
  day. The month is first estimated by \<open>(n + 50) >> 5\<close>, which is exact or one too large.
\<close>

definition ord2ymd :: "int \<Rightarrow> int \<times> int \<times> int" where
  "ord2ymd n0 =
     (let n = n0 - 1;
          n400 = n div DI400Y; n = n mod DI400Y;
          yr = n400 * 400 + 1;
          n100 = n div DI100Y; n = n mod DI100Y;
          n4 = n div DI4Y; n = n mod DI4Y;
          n1 = n div 365; n = n mod 365;
          yr = yr + n100 * 100 + n4 * 4 + n1
      in if n1 = 4 \<or> n100 = 4 then (yr - 1, 12, 31)
         else
           let leapyear = (n1 = 3 \<and> (n4 \<noteq> 24 \<or> n100 = 3));
               mon = drop_bit 5 (n + 50);
               preceding = DAYS_BEFORE_MONTH ! nat mon + (if mon > 2 \<and> leapyear then 1 else 0)
           in if preceding > n then
                let mon = mon - 1;
                    preceding = preceding
                      - (DAYS_IN_MONTH ! nat mon + (if mon = 2 \<and> leapyear then 1 else 0))
                in (yr, mon, n - preceding + 1)
              else (yr, mon, n - preceding + 1))"

text \<open>
  A \<open>date\<close> object holds year, month and day; its constructor refuses fields out of
  range (\<open>_check_date_fields\<close>), so every date object that exists satisfies
  \<open>valid_date\<close>.
\<close>

record date =
  year :: int
  month :: int
  day :: int

definition valid_date :: "date \<Rightarrow> bool" where
  "valid_date d \<longleftrightarrow>
     MINYEAR \<le> year d \<and> year d \<le> MAXYEAR \<and> 1 \<le> month d \<and> month d \<le> 12 \<and>
     1 \<le> day d \<and> day d \<le> days_in_month (year d) (month d)"

definition new_date :: "int \<Rightarrow> int \<Rightarrow> int \<Rightarrow> exn + date" where
  "new_date yr mon d =
     (if \<not> (MINYEAR \<le> yr \<and> yr \<le> MAXYEAR) then Inl ValueError
      else if \<not> (1 \<le> mon \<and> mon \<le> 12) then Inl ValueError
      else if \<not> (1 \<le> d \<and> d \<le> days_in_month yr mon) then Inl ValueError
      else Inr \<lparr>year = yr, month = mon, day = d\<rparr>)"

definition toordinal :: "date \<Rightarrow> int" where
  "toordinal d = ymd2ord (year d) (month d) (day d)"

text \<open>\<open>weekday\<close>: Monday is 0, Sunday is 6.\<close>

definition weekday :: "date \<Rightarrow> int" where
  "weekday d = (toordinal d + 6) mod 7"

text \<open>The ordinal of the Monday that starts ISO week 1 of a year.\<close>

definition isoweek1monday :: "int \<Rightarrow> int" where
  "isoweek1monday yr =
     (let THURSDAY = 3;
          firstday = ymd2ord yr 1 1;
          firstweekday = (firstday + 6) mod 7;
          week1monday = firstday - firstweekday
      in if firstweekday > THURSDAY then week1monday + 7 else week1monday)"

text \<open>
  \<open>isoweek_to_gregorian\<close> refuses a year outside \<open>MINYEAR..MAXYEAR\<close>, a week outside
  1..52 (53 is accepted only in a year that starts on a Thursday, or on a Wednesday when
  it is a leap year) and a weekday outside 1..7. The C accelerator of the module first
  converts the three arguments to C ints and raises OverflowError for a value that does
  not fit; the model reports that case as \<open>ValueError\<close> too, as the reference
  implementation does.
\<close>

definition isoweek_to_gregorian :: "int \<Rightarrow> int \<Rightarrow> int \<Rightarrow> exn + int \<times> int \<times> int" where
  "isoweek_to_gregorian yr wk wd =
     (if \<not> (MINYEAR \<le> yr \<and> yr \<le> MAXYEAR) then Inl ValueError
      else if \<not> (0 < wk \<and> wk < 53) \<and>
              \<not> (wk = 53 \<and>
                 (let first_weekday = ymd2ord yr 1 1 mod 7
                  in first_weekday = 4 \<or> (first_weekday = 3 \<and> is_leap yr)))
        then Inl ValueError
      else if \<not> (0 < wd \<and> wd < 8) then Inl ValueError
      else
        let day_offset = (wk - 1) * 7 + (wd - 1);
            day_1 = isoweek1monday yr;
            ord_day = day_1 + day_offset
        in Inr (ord2ymd ord_day))"

definition fromisocalendar :: "int \<Rightarrow> int \<Rightarrow> int \<Rightarrow> exn + date" where
  "fromisocalendar yr wk wd =
     (case isoweek_to_gregorian yr wk wd of
        Inl e \<Rightarrow> Inl e
      | Inr (y, m, d) \<Rightarrow> new_date y m d)"

text \<open>
  The named tuple returned by \<open>isocalendar\<close>. Its fields are \<open>year\<close>, \<open>week\<close> and
  \<open>weekday\<close> in Python; here they carry the prefix \<open>iso_\<close>, since \<open>year\<close> and
  \<open>weekday\<close> already name the attribute and the method of \<open>date\<close>.
\<close>

datatype IsoCalendarDate =
  IsoCalendarDate (iso_year: int) (iso_week: int) (iso_weekday: int)

definition isocalendar :: "date \<Rightarrow> IsoCalendarDate" where
  "isocalendar d =
     (let yr = year d;
          week1monday = isoweek1monday yr;
          today = ymd2ord (year d) (month d) (day d);
          wk = (today - week1monday) div 7;
          dy = (today - week1monday) mod 7
      in if wk < 0 then
           let yr = yr - 1;
               week1monday = isoweek1monday yr;
               wk = (today - week1monday) div 7;
               dy = (today - week1monday) mod 7
           in IsoCalendarDate yr (wk + 1) (dy + 1)
         else if wk \<ge> 52 \<and> today \<ge> isoweek1monday (yr + 1) then
           IsoCalendarDate (yr + 1) (0 + 1) (dy + 1)
         else IsoCalendarDate yr (wk + 1) (dy + 1))"

subsection \<open>strftime\<close>

text \<open>
  report.py uses four directives: \<open>%d\<close> and \<open>%m\<close> (day of the month and month, two
  decimal digits each), \<open>%a\<close> (abbreviated weekday name) and \<open>%B\<close> (full month
  name). The two names depend on the locale; report.py never calls \<open>setlocale\<close>, so
  they are those of the C locale.
\<close>

definition DAYNAMES :: "string list" where
  "DAYNAMES = [''Mon'', ''Tue'', ''Wed'', ''Thu'', ''Fri'', ''Sat'', ''Sun'']"

definition MONTHNAMES :: "string list" where
  "MONTHNAMES = [''January'', ''February'', ''March'', ''April'', ''May'', ''June'',
     ''July'', ''August'', ''September'', ''October'', ''November'', ''December'']"

definition digit :: "int \<Rightarrow> char" where
  "digit k = ''0123456789'' ! nat k"

definition two_digits :: "int \<Rightarrow> string" where
  "two_digits k = [digit (k div 10), digit (k mod 10)]"

definition strftime_d :: "date \<Rightarrow> string" where
  "strftime_d d = two_digits (day d)"

definition strftime_m :: "date \<Rightarrow> string" where
  "strftime_m d = two_digits (month d)"

definition strftime_a :: "date \<Rightarrow> string" where
  "strftime_a d = DAYNAMES ! nat (weekday d)"

definition strftime_B :: "date \<Rightarrow> string" where
  "strftime_B d = MONTHNAMES ! nat (month d - 1)"

section \<open>report.py\<close>

subsection \<open>Loading the configuration\<close>





definition DAYS_IN_A_WEEK :: int where
  "DAYS_IN_A_WEEK = 7"

text \<open>
  Standard output is the text written so far; \<open>print\<close> appends its argument and a
  newline.
\<close>

definition newline :: char where
  "newline = CHR 0x0A"

definition print :: "string \<Rightarrow> string \<Rightarrow> string" where
  "print s out = out @ s @ [newline]"














subsection \<open>The configuration in use\<close>

text \<open>
  The report functions read the configuration through \<open>get_cfg\<close>, which builds it once
  and returns the same object ever after. They are modelled on that object, as a record of
  the attributes with the types the configuration file gives them: strings for the
  labels and the hours, a list of integers for \<open>work_days\<close>. \<open>calendar\<close> is the
  \<open>is_holiday\<close> method of the workalendar object.
\<close>

record Configuration =
  report_language :: string
  country :: string
  continent :: string
  start_hour :: string
  end_hour :: string
  work_days :: "int list"
  vacation_spelling :: string
  holiday_spelling :: string
  calendar :: "date \<Rightarrow> bool"

definition is_holiday :: "Configuration \<Rightarrow> date \<Rightarrow> bool" where
  "is_holiday cfg d = calendar cfg d"

definition is_workday :: "Configuration \<Rightarrow> date \<Rightarrow> bool" where
  "is_workday cfg d = (let day_of_week = iso_weekday (isocalendar d)
                       in day_of_week \<in> set (work_days cfg))"

definition is_vacation :: "Configuration \<Rightarrow> date \<Rightarrow> bool" where
  "is_vacation cfg d = False"

subsection \<open>Dates of a week\<close>

text \<open>
  \<open>date.today()\<close> is the parameter \<open>today\<close>: the clock is read at every call, and the
  model takes it not to pass midnight during a run.
\<close>

definition get_current_year :: "date \<Rightarrow> int" where
  "get_current_year today = iso_year (isocalendar today)"

definition get_current_week :: "date \<Rightarrow> int" where
  "get_current_week today = iso_week (isocalendar today)"

definition get_day_from_week :: "date \<Rightarrow> int \<Rightarrow> int \<Rightarrow> exn + date" where
  "get_day_from_week today week wd =
     (let yr = get_current_year today in fromisocalendar yr week wd)"

text \<open>A list comprehension over calls that can raise: the first exception ends it.\<close>

fun collect :: "(exn + 'a) list \<Rightarrow> exn + 'a list" where
  "collect [] = Inr []"
| "collect (r # rs) =
     (case r of
        Inl e \<Rightarrow> Inl e
      | Inr v \<Rightarrow> (case collect rs of Inl e \<Rightarrow> Inl e | Inr vs \<Rightarrow> Inr (v # vs)))"

text \<open>The list \<open>week_days\<close> that \<open>get_list_of_days\<close> builds first.\<close>

definition week_days :: "date \<Rightarrow> int \<Rightarrow> exn + date list" where
  "week_days today week = collect (map (get_day_from_week today week) [1..DAYS_IN_A_WEEK])"

text \<open>
  \<open>get_list_of_days\<close> returns a tuple of one or two lists, here a list of lists.
  \<open>work_days[0]\<close> raises \<open>IndexError\<close> on the empty list; on a list that is not empty
  \<open>work_days[-1]\<close> is its last element.
\<close>

definition get_list_of_days :: "Configuration \<Rightarrow> date \<Rightarrow> int \<Rightarrow> exn + date list list" where
  "get_list_of_days cfg today week =
     (case week_days today week of
        Inl e \<Rightarrow> Inl e
      | Inr days \<Rightarrow>
          (let workdays = filter (is_workday cfg) days
           in case workdays of
                [] \<Rightarrow> Inl IndexError
              | first # _ \<Rightarrow>
                  if month first \<noteq> month (last workdays) then
                    let first_moth = month first;
                        second_month = month (last workdays);
                        first_moth_days = filter (\<lambda>d. month d = first_moth) workdays;
                        second_moth_days = filter (\<lambda>d. month d = second_month) workdays
                    in Inr [first_moth_days, second_moth_days]
                  else Inr [workdays]))"

subsection \<open>The report\<close>

definition format_day :: "Configuration \<Rightarrow> date \<Rightarrow> string" where
  "format_day cfg d =
     (let date_str = strftime_d d @ '':'' @ strftime_m d;
          day_name = strftime_a d;
          description =
            (if is_holiday cfg d then holiday_spelling cfg
             else if is_vacation cfg d then vacation_spelling cfg
             else (let work_start = start_hour cfg; work_end = end_hour cfg
                   in ''Start: '' @ work_start @ ''; End: '' @ work_end))
      in day_name @ ''-'' @ date_str @ ''.: '' @ description)"

text \<open>One pass of the loop of \<open>get_reports\<close>: the title, then a line for each day.\<close>

definition sub_report :: "Configuration \<Rightarrow> date list \<Rightarrow> exn + string list" where
  "sub_report cfg sub_week =
     (case sub_week of
        [] \<Rightarrow> Inl IndexError
      | first # _ \<Rightarrow>
          (let title = ''Working hours '' @ strftime_d first @ ''-''
                         @ strftime_d (last sub_week) @ '' Of '' @ strftime_B first
           in Inr (title # map (format_day cfg) sub_week)))"

definition get_reports :: "Configuration \<Rightarrow> date \<Rightarrow> int \<Rightarrow> exn + string list list" where
  "get_reports cfg today week =
     (case get_list_of_days cfg today week of
        Inl e \<Rightarrow> Inl e
      | Inr days \<Rightarrow> collect (map (sub_report cfg) days))"

definition print_sub_report :: "string list \<Rightarrow> string \<Rightarrow> string" where
  "print_sub_report sr out = print [newline] (foldl (\<lambda>out report. print report out) out sr)"

definition print_report :: "Configuration \<Rightarrow> date \<Rightarrow> int \<Rightarrow> string \<Rightarrow> (exn + unit) \<times> string" where
  "print_report cfg today week out =
     (case get_reports cfg today week of
        Inl e \<Rightarrow> (Inl e, out)
      | Inr reports \<Rightarrow> (Inr (), foldl (\<lambda>out sr. print_sub_report sr out) out reports))"

text \<open>\<open>main\<close>, with the value of the option \<open>--week\<close> as \<open>week_delta\<close>.\<close>

definition main :: "Configuration \<Rightarrow> date \<Rightarrow> int \<Rightarrow> string \<Rightarrow> (exn + unit) \<times> string" where
  "main cfg today week_delta out =
     (let week = get_current_week today + week_delta in print_report cfg today week out)"

section \<open>Notions used in the statements and proofs\<close>

text \<open>
  Months counted from year 0: \<open>month_index\<close> of a year and a month, \<open>month_no\<close>
  of a date, and \<open>month_start\<close>, the number of days before the first day of the
  month with a given index.
\<close>

definition month_index :: "int \<Rightarrow> int \<Rightarrow> int" where
  "month_index yr mon = 12 * yr + mon"

definition month_start :: "int \<Rightarrow> int" where
  "month_start a =
     days_before_year ((a - 1) div 12)
       + days_before_month ((a - 1) div 12) ((a - 1) mod 12 + 1)"

definition month_no :: "date \<Rightarrow> int" where
  "month_no d = month_index (year d) (month d)"

text \<open>
  ISO 8601 weeks. A year is long when it has 53 weeks, which \<open>isoweek_to_gregorian\<close>
  recognises by its first day; the weeks of a year are those between its first Monday and
  the first Monday of the next year.
\<close>

definition long_year :: "int \<Rightarrow> bool" where
  "long_year yr \<longleftrightarrow> (let first_weekday = ymd2ord yr 1 1 mod 7
                    in first_weekday = 4 \<or> (first_weekday = 3 \<and> is_leap yr))"

definition iso_weeks_in_year :: "int \<Rightarrow> int" where
  "iso_weeks_in_year yr = (isoweek1monday (yr + 1) - isoweek1monday yr) div 7"

definition valid_iso_week :: "int \<Rightarrow> int \<Rightarrow> bool" where
  "valid_iso_week yr wk \<longleftrightarrow> 1 \<le> wk \<and> wk \<le> iso_weeks_in_year yr"

text \<open>Two dates in the same calendar month.\<close>

definition same_month :: "date \<Rightarrow> date \<Rightarrow> bool" where
  "same_month a b \<longleftrightarrow> year a = year b \<and> month a = month b"


section \<open>The output that the specification describes\<close>


section \<open>Example inputs\<close>

text \<open>
  generate_config.py writes the default configuration file; \<open>config_dict\<close> is the
  configuration loaded from it, with the calendar as a parameter. \<open>may_day\<close> is a
  calendar with one holiday, the first of May. On \<open>example_today\<close>, a Wednesday in ISO
  week 10 of 2024, week 18 runs from 29 April to 5 May.
\<close>

definition config_dict :: "(date \<Rightarrow> bool) \<Rightarrow> Configuration" where
  "config_dict cal =
     \<lparr>report_language = ''English'', country = ''Poland'', continent = ''Europe'',
      start_hour = ''8:00'', end_hour = ''17:00'', work_days = [1, 2, 3, 4, 5],
      vacation_spelling = ''Vacation'', holiday_spelling = ''Holiday'', calendar = cal\<rparr>"

definition may_day :: "date \<Rightarrow> bool" where
  "may_day d \<longleftrightarrow> month d = 5 \<and> day d = 1"

definition example_today :: date where
  "example_today = \<lparr>year = 2024, month = 3, day = 6\<rparr>"

definition week_18 :: "date list" where
  "week_18 =
     [\<lparr>year = 2024, month = 4, day = 29\<rparr>, \<lparr>year = 2024, month = 4, day = 30\<rparr>,
      \<lparr>year = 2024, month = 5, day = 1\<rparr>, \<lparr>year = 2024, month = 5, day = 2\<rparr>,
      \<lparr>year = 2024, month = 5, day = 3\<rparr>, \<lparr>year = 2024, month = 5, day = 4\<rparr>,
      \<lparr>year = 2024, month = 5, day = 5\<rparr>]"

definition work_week_18 :: "date list" where
  "work_week_18 =
     [\<lparr>year = 2024, month = 4, day = 29\<rparr>, \<lparr>year = 2024, month = 4, day = 30\<rparr>,
      \<lparr>year = 2024, month = 5, day = 1\<rparr>, \<lparr>year = 2024, month = 5, day = 2\<rparr>,
      \<lparr>year = 2024, month = 5, day = 3\<rparr>]"




text \<open>
  A day of the last year that \<open>date\<close> can hold, and a day in the first ISO week of 2024.
\<close>

definition last_year_today :: date where
  "last_year_today = \<lparr>year = 9999, month = 6, day = 15\<rparr>"


section \<open>Calendar arithmetic\<close>

lemma DI_values: "DI400Y = 146097" "DI100Y = 36524" "DI4Y = 1461"
  by (simp_all add: DI400Y_def DI100Y_def DI4Y_def days_before_year_def)

lemma days_before_year_split:
  assumes "0 \<le> n100" "n100 \<le> 3" "0 \<le> n4" "n4 \<le> 24" "0 \<le> n1" "n1 \<le> 3"
  shows "days_before_year (n400 * 400 + 1 + n100 * 100 + n4 * 4 + n1) =
           146097 * n400 + 36524 * n100 + 1461 * n4 + 365 * n1"
proof -
  define y where "y = n400 * 400 + n100 * 100 + n4 * 4 + n1"
  have d4: "y div 4 = 100 * n400 + 25 * n100 + n4"
    by (rule int_div_pos_eq [where r = n1]) (use assms in \<open>simp_all add: y_def\<close>)
  have d100: "y div 100 = 4 * n400 + n100"
    by (rule int_div_pos_eq [where r = "n4 * 4 + n1"]) (use assms in \<open>simp_all add: y_def\<close>)
  have d400: "y div 400 = n400"
    by (rule int_div_pos_eq [where r = "n100 * 100 + n4 * 4 + n1"])
      (use assms in \<open>simp_all add: y_def\<close>)
  have eq: "n400 * 400 + 1 + n100 * 100 + n4 * 4 + n1 - 1 = y"
    by (simp add: y_def)
  have "y * 365 + y div 4 - y div 100 + y div 400 =
          146097 * n400 + 36524 * n100 + 1461 * n4 + 365 * n1"
    unfolding d4 d100 d400 by (simp add: y_def)
  then show ?thesis
    unfolding days_before_year_def Let_def eq .
qed

lemma mod_eq_0_top:
  fixes v k :: int
  assumes "0 < v" "v \<le> k"
  shows "v mod k = 0 \<longleftrightarrow> v = k"
proof (cases "v = k")
  case True
  then show ?thesis by simp
next
  case False
  with assms have "v < k" by simp
  with assms have "v mod k = v" by simp
  with assms False show ?thesis by simp
qed

lemma is_leap_split:
  assumes "0 \<le> n100" "n100 \<le> 3" "0 \<le> n4" "n4 \<le> 24" "0 \<le> n1" "n1 \<le> 3"
  shows "is_leap (n400 * 400 + 1 + n100 * 100 + n4 * 4 + n1) \<longleftrightarrow>
           n1 = 3 \<and> (n4 \<noteq> 24 \<or> n100 = 3)"
proof -
  define y where "y = n400 * 400 + 1 + n100 * 100 + n4 * 4 + n1"
  have "y = 4 * (100 * n400 + 25 * n100 + n4) + (n1 + 1)"
    by (simp add: y_def)
  then have "y mod 4 = (n1 + 1) mod 4"
    by (metis mod_mult_self4)
  then have m4: "y mod 4 = 0 \<longleftrightarrow> n1 = 3"
    using mod_eq_0_top [of "n1 + 1" 4] assms by simp
  have "y = 100 * (4 * n400 + n100) + (n4 * 4 + n1 + 1)"
    by (simp add: y_def)
  then have "y mod 100 = (n4 * 4 + n1 + 1) mod 100"
    by (metis mod_mult_self4)
  moreover have "n4 * 4 + n1 + 1 = 100 \<longleftrightarrow> n4 = 24 \<and> n1 = 3"
    using assms by presburger
  ultimately have m100: "y mod 100 = 0 \<longleftrightarrow> n4 = 24 \<and> n1 = 3"
    using mod_eq_0_top [of "n4 * 4 + n1 + 1" 100] assms by simp
  have "y = 400 * n400 + (n100 * 100 + n4 * 4 + n1 + 1)"
    by (simp add: y_def)
  then have "y mod 400 = (n100 * 100 + n4 * 4 + n1 + 1) mod 400"
    by (metis mod_mult_self4)
  moreover have "n100 * 100 + n4 * 4 + n1 + 1 = 400 \<longleftrightarrow> n100 = 3 \<and> n4 = 24 \<and> n1 = 3"
    using assms by arith
  ultimately have m400: "y mod 400 = 0 \<longleftrightarrow> n100 = 3 \<and> n4 = 24 \<and> n1 = 3"
    using mod_eq_0_top [of "n100 * 100 + n4 * 4 + n1 + 1" 400] assms by simp
  show ?thesis
    unfolding is_leap_def y_def [symmetric] using m4 m100 m400 by auto
qed

lemma month_estimate:
  fixes n :: int and lp :: bool
  assumes "0 \<le> n" "n \<le> 364"
  defines "mon \<equiv> drop_bit 5 (n + 50)"
  defines "prec \<equiv> DAYS_BEFORE_MONTH ! nat mon + (if mon > 2 \<and> lp then 1 else 0)"
  defines "res \<equiv>
     (if prec > n
      then (mon - 1,
            n - (prec - (DAYS_IN_MONTH ! nat (mon - 1) + (if mon - 1 = 2 \<and> lp then 1 else 0))) + 1)
      else (mon, n - prec + 1))"
  shows "1 \<le> fst res \<and> fst res \<le> 12 \<and> 1 \<le> snd res \<and>
         snd res \<le> (if fst res = 2 \<and> lp then 29 else DAYS_IN_MONTH ! nat (fst res)) \<and>
         DAYS_BEFORE_MONTH ! nat (fst res) + (if fst res > 2 \<and> lp then 1 else 0) + snd res
           = n + 1"
proof -
  have mon: "mon = (n + 50) div 32"
    by (simp add: mon_def drop_bit_eq_div)
  have lo: "32 * mon \<le> n + 50" and hi: "n + 50 < 32 * mon + 32"
    unfolding mon by presburger+
  from lo hi assms(1,2) have "1 \<le> mon" "mon \<le> 12"
    by linarith+
  then consider "mon = 1" | "mon = 2" | "mon = 3" | "mon = 4" | "mon = 5" | "mon = 6"
    | "mon = 7" | "mon = 8" | "mon = 9" | "mon = 10" | "mon = 11" | "mon = 12"
    by atomize_elim presburger
  then show ?thesis
  proof cases
    case 1 with lo hi assms(1,2) show ?thesis
      by (simp add: res_def prec_def DAYS_BEFORE_MONTH_def DAYS_IN_MONTH_def)
  next
    case 2 with lo hi assms(1,2) show ?thesis
      by (simp add: res_def prec_def DAYS_BEFORE_MONTH_def DAYS_IN_MONTH_def)
  next
    case 3 with lo hi assms(1,2) show ?thesis
      by (simp add: res_def prec_def DAYS_BEFORE_MONTH_def DAYS_IN_MONTH_def)
  next
    case 4 with lo hi assms(1,2) show ?thesis
      by (simp add: res_def prec_def DAYS_BEFORE_MONTH_def DAYS_IN_MONTH_def)
  next
    case 5 with lo hi assms(1,2) show ?thesis
      by (simp add: res_def prec_def DAYS_BEFORE_MONTH_def DAYS_IN_MONTH_def)
  next
    case 6 with lo hi assms(1,2) show ?thesis
      by (simp add: res_def prec_def DAYS_BEFORE_MONTH_def DAYS_IN_MONTH_def)
  next
    case 7 with lo hi assms(1,2) show ?thesis
      by (simp add: res_def prec_def DAYS_BEFORE_MONTH_def DAYS_IN_MONTH_def)
  next
    case 8 with lo hi assms(1,2) show ?thesis
      by (simp add: res_def prec_def DAYS_BEFORE_MONTH_def DAYS_IN_MONTH_def)
  next
    case 9 with lo hi assms(1,2) show ?thesis
      by (simp add: res_def prec_def DAYS_BEFORE_MONTH_def DAYS_IN_MONTH_def)
  next
    case 10 with lo hi assms(1,2) show ?thesis
      by (simp add: res_def prec_def DAYS_BEFORE_MONTH_def DAYS_IN_MONTH_def)
  next
    case 11 with lo hi assms(1,2) show ?thesis
      by (simp add: res_def prec_def DAYS_BEFORE_MONTH_def DAYS_IN_MONTH_def)
  next
    case 12 with lo hi assms(1,2) show ?thesis
      by (simp add: res_def prec_def DAYS_BEFORE_MONTH_def DAYS_IN_MONTH_def)
  qed
qed

lemma ord2ymd_correct:
  "case ord2ymd n of (y, m, d) \<Rightarrow>
     1 \<le> m \<and> m \<le> 12 \<and> 1 \<le> d \<and> d \<le> days_in_month y m \<and> ymd2ord y m d = n"
proof -
  define n400 where "n400 = (n - 1) div DI400Y"
  define r400 where "r400 = (n - 1) mod DI400Y"
  define n100 where "n100 = r400 div DI100Y"
  define r100 where "r100 = r400 mod DI100Y"
  define n4 where "n4 = r100 div DI4Y"
  define r4 where "r4 = r100 mod DI4Y"
  define n1 where "n1 = r4 div 365"
  define r1 where "r1 = r4 mod 365"
  define yr where "yr = n400 * 400 + 1 + n100 * 100 + n4 * 4 + n1"
  define lp where "lp \<longleftrightarrow> n1 = 3 \<and> (n4 \<noteq> 24 \<or> n100 = 3)"
  define mon where "mon = drop_bit 5 (r1 + 50)"
  define prec where "prec = DAYS_BEFORE_MONTH ! nat mon + (if mon > 2 \<and> lp then 1 else 0)"
  define res where "res =
     (if prec > r1
      then (mon - 1,
            r1 - (prec - (DAYS_IN_MONTH ! nat (mon - 1) + (if mon - 1 = 2 \<and> lp then 1 else 0))) + 1)
      else (mon, r1 - prec + 1))"
  have unfold: "ord2ymd n =
      (if n1 = 4 \<or> n100 = 4 then (yr - 1, 12, 31)
       else if prec > r1
         then (yr, mon - 1,
            r1 - (prec - (DAYS_IN_MONTH ! nat (mon - 1) + (if mon - 1 = 2 \<and> lp then 1 else 0))) + 1)
         else (yr, mon, r1 - prec + 1))"
    unfolding ord2ymd_def Let_def prec_def mon_def lp_def yr_def
      r1_def n1_def r4_def n4_def r100_def n100_def r400_def n400_def
    by (rule refl)
  have e400: "n - 1 = 146097 * n400 + r400" and b400: "0 \<le> r400" "r400 < 146097"
    by (simp_all add: n400_def r400_def DI_values)
  have e100: "r400 = 36524 * n100 + r100" and b100: "0 \<le> r100" "r100 < 36524"
    by (simp_all add: n100_def r100_def DI_values)
  have e4: "r100 = 1461 * n4 + r4" and b4: "0 \<le> r4" "r4 < 1461"
    by (simp_all add: n4_def r4_def DI_values)
  have e1: "r4 = 365 * n1 + r1" and b1: "0 \<le> r1" "r1 < 365"
    by (simp_all add: n1_def r1_def)
  have q100: "0 \<le> n100" "n100 \<le> 4"
    using e100 b100 b400 by linarith+
  have q4: "0 \<le> n4" "n4 \<le> 24"
    using e4 b4 b100 by linarith+
  have q1: "0 \<le> n1" "n1 \<le> 4"
    using e1 b1 b4 by linarith+
  show ?thesis
  proof (cases "n100 = 4")
    case True
    with e100 b100 b400 have "r100 = 0" by linarith
    with e4 b4 q4 have "n4 = 0" "r4 = 0" by linarith+
    with e1 b1 q1 have "n1 = 0" by linarith
    have n: "n = 146097 * n400 + 146097"
      using e400 e100 True \<open>r100 = 0\<close> by linarith
    have y: "yr - 1 = n400 * 400 + 1 + 3 * 100 + 24 * 4 + 3"
      using True \<open>n4 = 0\<close> \<open>n1 = 0\<close> by (simp add: yr_def)
    have "days_before_year (yr - 1) = 146097 * n400 + 36524 * 3 + 1461 * 24 + 365 * 3"
      unfolding y by (rule days_before_year_split) simp_all
    moreover have "is_leap (yr - 1)"
      unfolding y by (subst is_leap_split) simp_all
    moreover have "ord2ymd n = (yr - 1, 12, 31)"
      using True by (simp add: unfold)
    ultimately show ?thesis
      using n
      by (simp add: ymd2ord_def days_in_month_def days_before_month_def
            DAYS_BEFORE_MONTH_def DAYS_IN_MONTH_def)
  next
    case n100: False
    with q100 have n100': "n100 \<le> 3" by linarith
    show ?thesis
    proof (cases "n1 = 4")
      case True
      with e1 b1 b4 have "r1 = 0" by linarith
      have "n4 \<noteq> 24"
        using e4 e1 True b100 b1 by linarith
      with q4 have n4': "n4 \<le> 23" by linarith
      have n: "n = 146097 * n400 + 36524 * n100 + 1461 * n4 + 1461"
        using e400 e100 e4 e1 True \<open>r1 = 0\<close> by linarith
      have y: "yr - 1 = n400 * 400 + 1 + n100 * 100 + n4 * 4 + 3"
        using True by (simp add: yr_def)
      have "days_before_year (yr - 1) = 146097 * n400 + 36524 * n100 + 1461 * n4 + 365 * 3"
        unfolding y by (rule days_before_year_split) (use q100 n100' q4 in simp_all)
      moreover have "is_leap (yr - 1)"
        unfolding y by (subst is_leap_split) (use q100 n100' q4 \<open>n4 \<noteq> 24\<close> in simp_all)
      moreover have "ord2ymd n = (yr - 1, 12, 31)"
        using True by (simp add: unfold)
      ultimately show ?thesis
        using n
        by (simp add: ymd2ord_def days_in_month_def days_before_month_def
              DAYS_BEFORE_MONTH_def DAYS_IN_MONTH_def)
    next
      case False
      with q1 have n1': "n1 \<le> 3" by linarith
      have dby: "days_before_year yr =
          146097 * n400 + 36524 * n100 + 1461 * n4 + 365 * n1"
        unfolding yr_def by (rule days_before_year_split) (use q100 n100' q4 q1 n1' in simp_all)
      have leap: "is_leap yr \<longleftrightarrow> lp"
        unfolding yr_def lp_def by (rule is_leap_split) (use q100 n100' q4 q1 n1' in simp_all)
      have n: "n = days_before_year yr + r1 + 1"
        using e400 e100 e4 e1 dby by linarith
      have r1: "0 \<le> r1" "r1 \<le> 364"
        using b1 by simp_all
      note me = month_estimate [OF r1, of lp, folded mon_def, folded prec_def, folded res_def]
      have o: "ord2ymd n = (yr, fst res, snd res)"
        using False n100 by (simp add: unfold res_def)
      show ?thesis
        unfolding o using me n
        by (simp add: case_prod_beta ymd2ord_def days_in_month_def days_before_month_def leap)
    qed
  qed
qed

lemma div_plus1:
  fixes a k :: int
  assumes "0 < k"
  shows "(a + 1) div k = a div k + (if (a + 1) mod k = 0 then 1 else 0)"
proof -
  define q r where "q = a div k" and "r = a mod k"
  have a: "a = k * q + r" and r: "0 \<le> r" "r < k"
    using assms by (simp_all add: q_def r_def)
  show ?thesis
  proof (cases "r = k - 1")
    case True
    then have e: "a + 1 = k * (q + 1) + 0"
      using a by (simp add: algebra_simps)
    have "(a + 1) div k = q + 1"
      by (rule int_div_pos_eq [OF e]) (use assms in simp_all)
    moreover have "(a + 1) mod k = 0"
      by (rule int_mod_pos_eq [OF e]) (use assms in simp_all)
    ultimately show ?thesis by (simp add: q_def)
  next
    case False
    then have e: "a + 1 = k * q + (r + 1)" and r': "0 \<le> r + 1" "r + 1 < k"
      using a r by simp_all
    have "(a + 1) div k = q"
      by (rule int_div_pos_eq [OF e r'])
    moreover have "(a + 1) mod k = r + 1"
      by (rule int_mod_pos_eq [OF e r'])
    ultimately show ?thesis using r by (simp add: q_def)
  qed
qed

lemma days_before_year_step:
  "days_before_year (y + 1) = days_before_year y + 365 + (if is_leap y then 1 else 0)"
proof -
  define c4 c100 c400 :: int where "c4 = (if y mod 4 = 0 then 1 else 0)"
    and "c100 = (if y mod 100 = 0 then 1 else 0)"
    and "c400 = (if y mod 400 = 0 then 1 else 0)"
  have d4: "y div 4 = (y - 1) div 4 + c4"
    using div_plus1 [of 4 "y - 1"] by (simp add: c4_def)
  have d100: "y div 100 = (y - 1) div 100 + c100"
    using div_plus1 [of 100 "y - 1"] by (simp add: c100_def)
  have d400: "y div 400 = (y - 1) div 400 + c400"
    using div_plus1 [of 400 "y - 1"] by (simp add: c400_def)
  have "y mod 400 mod 100 = y mod 100"
    by (rule mod_mod_cancel) simp
  then have i1: "y mod 400 = 0 \<Longrightarrow> y mod 100 = 0"
    by simp
  have "y mod 100 mod 4 = y mod 4"
    by (rule mod_mod_cancel) simp
  then have i2: "y mod 100 = 0 \<Longrightarrow> y mod 4 = 0"
    by simp
  have leap: "c4 - c100 + c400 = (if is_leap y then 1 else 0)"
    unfolding c4_def c100_def c400_def using i1 i2
    by (cases "y mod 4 = 0"; cases "y mod 100 = 0"; cases "y mod 400 = 0";
        simp add: is_leap_def)
  have "days_before_year (y + 1) = y * 365 + y div 4 - y div 100 + y div 400"
    by (simp add: days_before_year_def)
  also have "\<dots> = ((y - 1) * 365 + (y - 1) div 4 - (y - 1) div 100 + (y - 1) div 400)
      + 365 + (c4 - c100 + c400)"
    unfolding d4 d100 d400 by (simp add: algebra_simps)
  also have "\<dots> = days_before_year y + 365 + (if is_leap y then 1 else 0)"
    unfolding leap by (simp add: days_before_year_def Let_def algebra_simps)
  finally show ?thesis .
qed

lemma days_in_month_ge:
  assumes "1 \<le> m" "m \<le> 12"
  shows "28 \<le> days_in_month y m"
proof -
  from assms consider "m = 1" | "m = 2" | "m = 3" | "m = 4" | "m = 5" | "m = 6"
    | "m = 7" | "m = 8" | "m = 9" | "m = 10" | "m = 11" | "m = 12"
    by atomize_elim presburger
  then show ?thesis
    by cases (simp_all add: days_in_month_def DAYS_IN_MONTH_def)
qed

lemma days_before_month_step:
  assumes "1 \<le> m" "m \<le> 11"
  shows "days_before_month y (m + 1) = days_before_month y m + days_in_month y m"
proof -
  from assms consider "m = 1" | "m = 2" | "m = 3" | "m = 4" | "m = 5" | "m = 6"
    | "m = 7" | "m = 8" | "m = 9" | "m = 10" | "m = 11"
    by atomize_elim presburger
  then show ?thesis
    by cases (simp_all add: days_in_month_def days_before_month_def DAYS_IN_MONTH_def DAYS_BEFORE_MONTH_def)
qed

lemma month_index_decode:
  assumes "1 \<le> m" "m \<le> 12"
  shows "(month_index y m - 1) div 12 = y" "(month_index y m - 1) mod 12 + 1 = m"
proof -
  have e: "month_index y m - 1 = 12 * y + (m - 1)"
    by (simp add: month_index_def)
  show "(month_index y m - 1) div 12 = y"
    by (rule int_div_pos_eq [OF e]) (use assms in simp_all)
  have "(month_index y m - 1) mod 12 = m - 1"
    by (rule int_mod_pos_eq [OF e]) (use assms in simp_all)
  then show "(month_index y m - 1) mod 12 + 1 = m" by simp
qed

lemma month_start_index:
  assumes "1 \<le> m" "m \<le> 12"
  shows "month_start (month_index y m) = days_before_year y + days_before_month y m"
  by (simp add: month_start_def month_index_decode [OF assms])

lemma month_start_step:
  assumes "1 \<le> m" "m \<le> 12"
  shows "month_start (month_index y m + 1) = month_start (month_index y m) + days_in_month y m"
proof (cases "m = 12")
  case True
  have "month_index y m + 1 = month_index (y + 1) 1"
    using True by (simp add: month_index_def)
  then have "month_start (month_index y m + 1) = days_before_year (y + 1) + days_before_month (y + 1) 1"
    by (simp add: month_start_index)
  also have "\<dots> = days_before_year y + days_before_month y 12 + days_in_month y 12"
    by (simp add: days_before_year_step days_before_month_def days_in_month_def
         DAYS_BEFORE_MONTH_def DAYS_IN_MONTH_def)
  finally show ?thesis
    using True by (simp add: month_start_index)
next
  case False
  with assms have m: "1 \<le> m" "m \<le> 11" by simp_all
  have "month_index y m + 1 = month_index y (m + 1)"
    by (simp add: month_index_def)
  then have "month_start (month_index y m + 1) = days_before_year y + days_before_month y (m + 1)"
    using m by (simp add: month_start_index)
  then show ?thesis
    using m by (simp add: month_start_index days_before_month_step)
qed

lemma month_start_Suc: "month_start a + 28 \<le> month_start (a + 1)"
proof -
  define y m where "y = (a - 1) div 12" and "m = (a - 1) mod 12 + 1"
  have m: "1 \<le> m" "m \<le> 12"
    by (simp_all add: m_def) 
  have a: "a = month_index y m"
    by (simp add: month_index_def y_def m_def)
  show ?thesis
    unfolding a using month_start_step [OF m, of y] days_in_month_ge [OF m, of y] by simp
qed

lemma month_start_mono:
  assumes "a \<le> b"
  shows "month_start a + 28 * (b - a) \<le> month_start b"
  using assms
proof (induction b rule: int_ge_induct)
  case base
  then show ?case by simp
next
  case (step i)
  then show ?case using month_start_Suc [of i] by simp
qed

lemma ymd2ord_in_month:
  assumes "1 \<le> m" "m \<le> 12" "1 \<le> d" "d \<le> days_in_month y m"
  shows "month_start (month_index y m) < ymd2ord y m d"
    and "ymd2ord y m d \<le> month_start (month_index y m + 1)"
  using assms by (simp_all add: month_start_step month_start_index ymd2ord_def)

lemma week_rem_cases:
  fixes f :: int
  obtains q where "f = 7 * q + 1" | q where "f = 7 * q + 2" | q where "f = 7 * q + 3"
    | q where "f = 7 * q + 4" | q where "f = 7 * q + 5" | q where "f = 7 * q + 6"
    | q where "f = 7 * q + 7"
proof -
  define r where "r = (f - 1) mod 7"
  have f: "f = 7 * ((f - 1) div 7) + (r + 1)"
    by (simp add: r_def)
  have "0 \<le> r" "r < 7"
    by (simp_all add: r_def)
  then consider "r = 0" | "r = 1" | "r = 2" | "r = 3" | "r = 4" | "r = 5" | "r = 6"
    by atomize_elim linarith
  then show ?thesis
    by cases (use f that in \<open>simp_all\<close>)
qed

lemma first_day: "ymd2ord y 1 1 = days_before_year y + 1"
  by (simp add: ymd2ord_def days_before_month_def DAYS_BEFORE_MONTH_def)

lemma isoweek1monday_unfold:
  "isoweek1monday y =
     (if 3 < (ymd2ord y 1 1 + 6) mod 7 then ymd2ord y 1 1 - (ymd2ord y 1 1 + 6) mod 7 + 7
      else ymd2ord y 1 1 - (ymd2ord y 1 1 + 6) mod 7)"
  unfolding isoweek1monday_def Let_def by (rule refl)

lemma isoweek1monday_monday: "(isoweek1monday y + 6) mod 7 = 0"
  unfolding isoweek1monday_unfold
  by (cases "ymd2ord y 1 1" rule: week_rem_cases) auto

lemma isoweek1monday_near:
  "days_before_year y - 2 \<le> isoweek1monday y \<and> isoweek1monday y \<le> days_before_year y + 4"
  unfolding isoweek1monday_unfold first_day
  by (cases "days_before_year y + 1" rule: week_rem_cases) auto

lemma week_step_arith:
  fixes f l :: int
  assumes "l = 0 \<or> l = 1"
  shows "(if 3 < (f + 365 + l + 6) mod 7 then f + 365 + l - (f + 365 + l + 6) mod 7 + 7
         else f + 365 + l - (f + 365 + l + 6) mod 7) =
        (if 3 < (f + 6) mod 7 then f - (f + 6) mod 7 + 7 else f - (f + 6) mod 7)
          + (if f mod 7 = 4 \<or> (f mod 7 = 3 \<and> l = 1) then 371 else 364)"
  using assms by (cases f rule: week_rem_cases) auto

lemma isoweek1monday_step:
  "isoweek1monday (y + 1) = isoweek1monday y + (if long_year y then 371 else 364)"
proof -
  define f where "f = ymd2ord y 1 1"
  define l :: int where "l = (if is_leap y then 1 else 0)"
  have f': "ymd2ord (y + 1) 1 1 = f + 365 + l"
    by (simp add: first_day days_before_year_step f_def l_def)
  have l: "l = 0 \<or> l = 1"
    by (simp add: l_def)
  have long: "long_year y \<longleftrightarrow> f mod 7 = 4 \<or> (f mod 7 = 3 \<and> l = 1)"
    by (simp add: long_year_def Let_def f_def l_def)
  show ?thesis
    unfolding isoweek1monday_unfold f' long f_def [symmetric] by (rule week_step_arith [OF l])
qed

lemma iso_weeks_in_year: "iso_weeks_in_year y = (if long_year y then 53 else 52)"
  by (simp add: iso_weeks_in_year_def isoweek1monday_step)

lemma days_before_year_mono:
  assumes "a \<le> b"
  shows "days_before_year a + 365 * (b - a) \<le> days_before_year b"
  using assms
proof (induction b rule: int_ge_induct)
  case base
  then show ?case by simp
next
  case (step i)
  then show ?case by (simp add: days_before_year_step)
qed

lemma isoweek1monday_mono:
  assumes "a \<le> b"
  shows "isoweek1monday a + 364 * (b - a) \<le> isoweek1monday b"
  using assms
proof (induction b rule: int_ge_induct)
  case base
  then show ?case by simp
next
  case (step i)
  then show ?case by (simp add: isoweek1monday_step)
qed

lemma ymd2ord_in_year:
  assumes "1 \<le> m" "m \<le> 12" "1 \<le> d" "d \<le> days_in_month y m"
  shows "days_before_year y < ymd2ord y m d \<and> ymd2ord y m d \<le> days_before_year (y + 1)"
proof -
  have 1: "month_start (month_index y 1) = days_before_year y"
    by (simp add: month_start_index days_before_month_def DAYS_BEFORE_MONTH_def)
  have 2: "month_start (month_index (y + 1) 1) = days_before_year (y + 1)"
    by (simp add: month_start_index days_before_month_def DAYS_BEFORE_MONTH_def)
  have "month_start (month_index y 1) \<le> month_start (month_index y m)"
    using month_start_mono [of "month_index y 1" "month_index y m"] assms
    by (simp add: month_index_def)
  moreover have "month_start (month_index y m + 1) \<le> month_start (month_index (y + 1) 1)"
    using month_start_mono [of "month_index y m + 1" "month_index (y + 1) 1"] assms
    by (simp add: month_index_def)
  ultimately show ?thesis
    using ymd2ord_in_month [OF assms] unfolding 1 2 by linarith
qed

lemma isocalendar_unfold:
  "isocalendar d =
     (if (toordinal d - isoweek1monday (year d)) div 7 < 0
      then IsoCalendarDate (year d - 1)
             ((toordinal d - isoweek1monday (year d - 1)) div 7 + 1)
             ((toordinal d - isoweek1monday (year d - 1)) mod 7 + 1)
      else if (toordinal d - isoweek1monday (year d)) div 7 \<ge> 52
              \<and> toordinal d \<ge> isoweek1monday (year d + 1)
      then IsoCalendarDate (year d + 1) 1 ((toordinal d - isoweek1monday (year d)) mod 7 + 1)
      else IsoCalendarDate (year d)
             ((toordinal d - isoweek1monday (year d)) div 7 + 1)
             ((toordinal d - isoweek1monday (year d)) mod 7 + 1))"
  by (simp add: isocalendar_def Let_def toordinal_def)

lemma valid_iso_week_bounds:
  assumes "valid_iso_week y wk"
  shows "1 \<le> wk" "isoweek1monday y + 7 * wk \<le> isoweek1monday (y + 1)"
  using assms
  by (simp_all add: valid_iso_week_def iso_weeks_in_year isoweek1monday_step split: if_splits)

lemma isocalendar_week_day:
  assumes v: "valid_iso_week y wk" and k: "1 \<le> k" "k \<le> 7"
    and m: "1 \<le> month d" "month d \<le> 12" "1 \<le> day d"
      "day d \<le> days_in_month (year d) (month d)"
    and n: "toordinal d = isoweek1monday y + (wk - 1) * 7 + (k - 1)"
  shows "isocalendar d = IsoCalendarDate y wk k"
proof -
  define g where "g = year d"
  define t where "t = toordinal d"
  define w0 w1 where "w0 = isoweek1monday y" and "w1 = isoweek1monday (y + 1)"
  define b0 b1 where "b0 = days_before_year y" and "b1 = days_before_year (y + 1)"
  define bg bg1 where "bg = days_before_year g" and "bg1 = days_before_year (g + 1)"
  have vb: "1 \<le> wk" "w0 + 7 * wk \<le> w1"
    using valid_iso_week_bounds [OF v] by (simp_all add: w0_def w1_def)
  have yr: "bg < t" "t \<le> bg1"
    using ymd2ord_in_year [OF m] by (simp_all add: g_def t_def toordinal_def bg_def bg1_def)
  have t: "t = w0 + 7 * (wk - 1) + (k - 1)"
    using n by (simp add: t_def w0_def)
  have lo: "w0 \<le> t"
    using t vb k by simp
  have hi: "t < w1"
    using t vb k by simp
  have near0: "b0 - 2 \<le> w0" "w0 \<le> b0 + 4"
    using isoweek1monday_near [of y] by (simp_all add: w0_def b0_def)
  have near1: "b1 - 2 \<le> w1" "w1 \<le> b1 + 4"
    using isoweek1monday_near [of "y + 1"] by (simp_all add: w1_def b1_def)
  have x: "t - w0 = 7 * (wk - 1) + (k - 1)"
    using t by simp
  have xdiv: "(t - w0) div 7 = wk - 1"
    by (rule int_div_pos_eq [OF x]) (use k in simp_all)
  have xmod: "(t - w0) mod 7 = k - 1"
    by (rule int_mod_pos_eq [OF x]) (use k in simp_all)
  have g_le: "g \<le> y + 1"
  proof (rule ccontr)
    assume "\<not> g \<le> y + 1"
    then have *: "y + 1 + 1 \<le> g" by simp
    have "days_before_year (y + 1 + 1) \<le> bg"
      using days_before_year_mono [OF *] * unfolding bg_def
      by (simp add: order_trans [rotated])
    moreover have "days_before_year (y + 1 + 1) \<ge> b1 + 365"
      unfolding days_before_year_step [of "y + 1"] b1_def by simp
    ultimately show False
      using yr hi near1 by linarith
  qed
  have g_ge: "y - 1 \<le> g"
  proof (rule ccontr)
    assume "\<not> y - 1 \<le> g"
    then have *: "g + 1 \<le> y - 1" by simp
    have "bg1 \<le> days_before_year (y - 1)"
      using days_before_year_mono [OF *] * unfolding bg1_def
      by (simp add: order_trans [rotated])
    moreover have "b0 \<ge> days_before_year (y - 1) + 365"
      using days_before_year_step [of "y - 1"] unfolding b0_def by simp
    ultimately show False
      using yr lo near0 by linarith
  qed
  from g_le g_ge consider "g = y" | "g = y + 1" | "g = y - 1"
    by atomize_elim linarith
  then have "isocalendar d = IsoCalendarDate y wk k"
  proof cases
    case 1
    then show ?thesis
      unfolding isocalendar_unfold g_def [symmetric] t_def [symmetric]
      using xdiv xmod vb hi by (simp add: w0_def w1_def)
  next
    case 2
    have "(t - w1) div 7 < 0"
      using hi by simp
    then show ?thesis
      unfolding isocalendar_unfold g_def [symmetric] t_def [symmetric] 2
      using xdiv xmod by (simp add: w0_def w1_def)
  next
    case 3
    define c :: int where "c = (if long_year (y - 1) then 53 else 52)"
    define wm where "wm = isoweek1monday (y - 1)"
    have st: "w0 = wm + 7 * c"
      using isoweek1monday_step [of "y - 1"] by (simp add: c_def w0_def wm_def)
    have x': "t - wm = 7 * (c + wk - 1) + (k - 1)"
      using t st by simp
    have x'div: "(t - wm) div 7 = c + wk - 1"
      by (rule int_div_pos_eq [OF x']) (use k in simp_all)
    have x'mod: "(t - wm) mod 7 = k - 1"
      by (rule int_mod_pos_eq [OF x']) (use k in simp_all)
    have c: "c \<ge> 52" by (simp add: c_def)
    have "t \<le> b0"
      using yr 3 by (simp add: bg1_def b0_def)
    then have wk1: "wk = 1"
      using t near0 vb k by simp
    show ?thesis
      unfolding isocalendar_unfold g_def [symmetric] t_def [symmetric] 3
      using x'div x'mod c vb lo wk1 by (simp add: w0_def wm_def)
  qed
  then show ?thesis .
qed

lemma collect_map_Inr: "collect (map Inr vs) = Inr vs"
  by (induction vs) simp_all

lemma collect_Inr_D: "collect rs = Inr vs \<Longrightarrow> rs = map Inr vs"
  by (induction rs arbitrary: vs) (auto split: sum.splits)

lemma collect_Inr_iff: "collect rs = Inr vs \<longleftrightarrow> rs = map Inr vs"
  using collect_map_Inr collect_Inr_D by metis

lemma upto_1_7: "[1..7] = [1, 2, 3, 4, 5, 6, 7]"
  by (simp add: upto_rec1)

lemma fromisocalendar_Inr:
  assumes "fromisocalendar yr wk wd = Inr d"
  shows "valid_date d" and "toordinal d = isoweek1monday yr + (wk - 1) * 7 + (wd - 1)"
proof -
  define n where "n = isoweek1monday yr + ((wk - 1) * 7 + (wd - 1))"
  obtain y m dd where o: "ord2ymd n = (y, m, dd)"
    by (cases "ord2ymd n") auto
  from assms have g: "isoweek_to_gregorian yr wk wd = Inr (ord2ymd n)"
    by (auto simp add: fromisocalendar_def isoweek_to_gregorian_def Let_def n_def
          split: if_splits sum.splits)
  with assms o have nd: "new_date y m dd = Inr d"
    by (simp add: fromisocalendar_def)
  then have d: "d = \<lparr>year = y, month = m, day = dd\<rparr>" and v: "valid_date d"
    by (auto simp add: new_date_def valid_date_def split: if_splits)
  show "valid_date d" by (rule v)
  from ord2ymd_correct [of n] o have "ymd2ord y m dd = n" by simp
  then show "toordinal d = isoweek1monday yr + (wk - 1) * 7 + (wd - 1)"
    by (simp add: toordinal_def d n_def)
qed

lemma week_days_Inr:
  assumes "week_days today week = Inr ds"
  shows "map toordinal ds =
           map (\<lambda>k. isoweek1monday (get_current_year today) + (week - 1) * 7 + (k - 1)) [1..7]"
    and "\<forall>d\<in>set ds. valid_date d"
proof -
  from assms have m: "map (get_day_from_week today week) [1..7] = map Inr ds"
    by (simp add: week_days_def DAYS_IN_A_WEEK_def collect_Inr_iff)
  then have len: "length ds = length [1..7::int]"
    by (metis length_map)
  have each: "fromisocalendar (get_current_year today) week ([1..7] ! i) = Inr (ds ! i)"
    if "i < 7" for i
  proof -
    have "get_day_from_week today week ([1..7] ! i) =
            map (get_day_from_week today week) [1..7] ! i"
      by (rule nth_map [symmetric]) (use that in \<open>simp add: upto_1_7\<close>)
    also have "\<dots> = map Inr ds ! i"
      by (simp only: m)
    also have "\<dots> = Inr (ds ! i)"
      by (rule nth_map) (use that len in \<open>simp add: upto_1_7\<close>)
    finally show ?thesis
      by (simp add: get_day_from_week_def)
  qed
  show "map toordinal ds =
           map (\<lambda>k. isoweek1monday (get_current_year today) + (week - 1) * 7 + (k - 1)) [1..7]"
  proof (rule nth_equalityI)
    show "length (map toordinal ds) = length (map (\<lambda>k. isoweek1monday (get_current_year today) + (week - 1) * 7 + (k - 1)) [1..7])"
      using len by simp
  next
    fix i assume "i < length (map toordinal ds)"
    then have i: "i < 7" using len by (simp add: upto_1_7)
    from fromisocalendar_Inr(2) [OF each [OF i]] i len
    show "map toordinal ds ! i = map (\<lambda>k. isoweek1monday (get_current_year today) + (week - 1) * 7 + (k - 1)) [1..7] ! i"
      by simp
  qed
  show "\<forall>d\<in>set ds. valid_date d"
  proof
    fix d assume "d \<in> set ds"
    then obtain i where i: "i < length ds" "ds ! i = d"
      by (auto simp add: in_set_conv_nth)
    then have "i < 7" using len by (simp add: upto_1_7)
    from fromisocalendar_Inr(1) [OF each [OF this]] i show "valid_date d" by simp
  qed
qed

lemma month_no_mono:
  assumes "valid_date a" "valid_date b" "toordinal a \<le> toordinal b"
  shows "month_no a \<le> month_no b"
proof (rule ccontr)
  assume "\<not> month_no a \<le> month_no b"
  then have lt: "month_no b + 1 \<le> month_no a" by simp
  have "month_start (month_no b + 1) \<le> month_start (month_no a)"
    using month_start_mono [OF lt] lt by (simp add: order_trans [rotated])
  moreover have "toordinal b \<le> month_start (month_no b + 1)"
    using ymd2ord_in_month(2) [of "month b" "day b" "year b"] assms(2)
    by (simp add: valid_date_def toordinal_def month_no_def)
  moreover have "month_start (month_no a) < toordinal a"
    using ymd2ord_in_month(1) [of "month a" "day a" "year a"] assms(1)
    by (simp add: valid_date_def toordinal_def month_no_def)
  ultimately show False
    using assms(3) by linarith
qed

lemma month_no_close:
  assumes "valid_date a" "valid_date b" "toordinal b < toordinal a + 28"
  shows "month_no b \<le> month_no a + 1"
proof (rule ccontr)
  assume "\<not> month_no b \<le> month_no a + 1"
  then have lt: "month_no a + 1 + 1 \<le> month_no b" by simp
  have "month_start (month_no a + 1 + 1) \<le> month_start (month_no b)"
    using month_start_mono [OF lt] lt by (simp add: order_trans [rotated])
  moreover have "month_start (month_no a + 1) + 28 \<le> month_start (month_no a + 1 + 1)"
    by (rule month_start_Suc)
  moreover have "toordinal a \<le> month_start (month_no a + 1)"
    using ymd2ord_in_month(2) [of "month a" "day a" "year a"] assms(1)
    by (simp add: valid_date_def toordinal_def month_no_def)
  moreover have "month_start (month_no b) < toordinal b"
    using ymd2ord_in_month(1) [of "month b" "day b" "year b"] assms(2)
    by (simp add: valid_date_def toordinal_def month_no_def)
  ultimately show False
    using assms(3) by linarith
qed

lemma month_no_eq:
  assumes "valid_date a" "valid_date b"
  shows "month_no a = month_no b \<longleftrightarrow> year a = year b \<and> month a = month b"
proof
  assume e: "month_no a = month_no b"
  have "(month_no a - 1) div 12 = year a" "(month_no a - 1) mod 12 + 1 = month a"
    unfolding month_no_def by (rule month_index_decode; use assms in \<open>simp add: valid_date_def\<close>)+
  moreover have "(month_no b - 1) div 12 = year b" "(month_no b - 1) mod 12 + 1 = month b"
    unfolding month_no_def by (rule month_index_decode; use assms in \<open>simp add: valid_date_def\<close>)+
  ultimately show "year a = year b \<and> month a = month b"
    using e by simp
next
  assume "year a = year b \<and> month a = month b"
  then show "month_no a = month_no b"
    by (simp add: month_no_def)
qed

lemma month_no_next:
  assumes "valid_date a" "valid_date b" "month_no b = month_no a + 1"
  shows "month b \<noteq> month a"
proof
  assume "month b = month a"
  with assms(3) have "12 * year b = 12 * year a + 1"
    by (simp add: month_no_def month_index_def)
  then show False by presburger
qed

lemma sorted_between:
  assumes "sorted (map f xs)" "x \<in> set xs"
  shows "f (hd xs) \<le> f x \<and> f x \<le> f (last xs)"
  using assms by (induction xs) (auto split: if_splits)

lemma filter_two_values:
  fixes f :: "'a \<Rightarrow> int"
  assumes "sorted (map f xs)" "\<forall>x\<in>set xs. f x = a \<or> f x = b" "a < b"
  shows "filter (\<lambda>x. f x = a) xs @ filter (\<lambda>x. f x = b) xs = xs"
  using assms
proof (induction xs)
  case Nil
  then show ?case by simp
next
  case (Cons x xs)
  show ?case
  proof (cases "f x = a")
    case True
    with Cons show ?thesis by simp
  next
    case False
    with Cons.prems have fx: "f x = b" by simp
    have "f y = b" if "y \<in> set xs" for y
    proof -
      from Cons.prems(1) that have "f x \<le> f y" by simp
      moreover from Cons.prems(2) that have "f y = a \<or> f y = b" by simp
      ultimately show ?thesis using fx \<open>a < b\<close> by linarith
    qed
    then have "\<forall>y\<in>set xs. f y = b" by simp
    then have "filter (\<lambda>x. f x = a) xs = []" "filter (\<lambda>x. f x = b) xs = xs"
      using \<open>a < b\<close> by (auto simp add: filter_empty_conv filter_id_conv)
    with fx \<open>a < b\<close> show ?thesis by simp
  qed
qed

lemma week_span:
  assumes "week_days today week = Inr ds" "a \<in> set ds" "b \<in> set ds"
  shows "toordinal b < toordinal a + 28"
proof -
  define base where "base = isoweek1monday (get_current_year today) + (week - 1) * 7"
  have "map toordinal ds = map (\<lambda>k. base + (k - 1)) [1..7]"
    using week_days_Inr(1) [OF assms(1)] by (simp add: base_def)
  then have s: "set (map toordinal ds) = set (map (\<lambda>k. base + (k - 1)) [1..7])"
    by simp
  have r: "base \<le> toordinal d \<and> toordinal d \<le> base + 6" if "d \<in> set ds" for d
  proof -
    from that have "toordinal d \<in> set (map toordinal ds)" by simp
    then have "toordinal d \<in> set (map (\<lambda>k. base + (k - 1)) [1..7])"
      by (simp only: s)
    then obtain k where "1 \<le> k" "k \<le> 7" "toordinal d = base + (k - 1)"
      by auto
    then show ?thesis by simp
  qed
  from r [OF assms(2)] r [OF assms(3)] show ?thesis by linarith
qed

lemma week_sorted:
  assumes "week_days today week = Inr ds"
  shows "sorted_wrt (\<lambda>a b. toordinal a < toordinal b) ds"
proof -
  have "sorted_wrt (<) (map toordinal ds)"
    unfolding week_days_Inr(1) [OF assms] by (simp add: upto_1_7)
  then show ?thesis
    by (simp add: sorted_wrt_map)
qed

lemma split_months:
  assumes "xs \<noteq> []" "sorted_wrt (\<lambda>a b. toordinal a < toordinal b) xs"
    and "\<forall>d\<in>set xs. valid_date d"
    and "\<forall>a\<in>set xs. \<forall>b\<in>set xs. toordinal b < toordinal a + 28"
  shows "month (hd xs) \<noteq> month (last xs) \<Longrightarrow>
           filter (\<lambda>d. month d = month (hd xs)) xs @ filter (\<lambda>d. month d = month (last xs)) xs = xs"
    and "month (hd xs) \<noteq> month (last xs) \<Longrightarrow> d \<in> set xs \<Longrightarrow>
           (month d = month (hd xs)) = (year d = year (hd xs) \<and> month d = month (hd xs))
           \<and> (month d = month (last xs)) = (year d = year (last xs) \<and> month d = month (last xs))"
    and "month (hd xs) = month (last xs) \<Longrightarrow> d \<in> set xs \<Longrightarrow>
           year d = year (hd xs) \<and> month d = month (hd xs)"
proof -
  have hd: "hd xs \<in> set xs" and last: "last xs \<in> set xs"
    using assms(1) by simp_all
  have "sorted_wrt (<) (map toordinal xs)"
    using assms(2) by (simp add: sorted_wrt_map)
  then have so: "sorted (map toordinal xs)"
    by (rule strict_sorted_imp_sorted)
  have between: "month_no (hd xs) \<le> month_no x \<and> month_no x \<le> month_no (last xs)"
    if "x \<in> set xs" for x
    using sorted_between [OF so that] assms(3) hd last that
    by (simp add: month_no_mono)
  have close: "month_no (last xs) \<le> month_no (hd xs) + 1"
    using assms(3,4) hd last by (simp add: month_no_close)
  have msorted: "sorted (map month_no xs)"
    unfolding sorted_map
  proof (rule sorted_wrt_mono_rel [OF _ assms(2)])
    fix a b assume "a \<in> set xs" "b \<in> set xs" "toordinal a < toordinal b"
    then show "month_no a \<le> month_no b"
      using assms(3) by (simp add: month_no_mono)
  qed
  {
    assume ne: "month (hd xs) \<noteq> month (last xs)"
    then have "month_no (hd xs) \<noteq> month_no (last xs)"
      using assms(3) hd last by (simp add: month_no_eq)
    with close between [OF last] have nx: "month_no (last xs) = month_no (hd xs) + 1"
      by simp
    have two: "month_no x = month_no (hd xs) \<or> month_no x = month_no (last xs)"
      if "x \<in> set xs" for x
      using between [OF that] nx by linarith
    have fst: "(month x = month (hd xs)) = (month_no x = month_no (hd xs))"
      and snd: "(month x = month (last xs)) = (month_no x = month_no (last xs))"
      if "x \<in> set xs" for x
    proof -
      have vx: "valid_date x" "valid_date (hd xs)" "valid_date (last xs)"
        using assms(3) that hd last by simp_all
      from two [OF that] show "(month x = month (hd xs)) = (month_no x = month_no (hd xs))"
      proof
        assume "month_no x = month_no (hd xs)"
        then show ?thesis using vx by (simp add: month_no_eq)
      next
        assume *: "month_no x = month_no (last xs)"
        then have "month x = month (last xs)" using vx by (simp add: month_no_eq)
        with ne * nx show ?thesis by simp
      qed
      from two [OF that] show "(month x = month (last xs)) = (month_no x = month_no (last xs))"
      proof
        assume *: "month_no x = month_no (hd xs)"
        then have "month x = month (hd xs)" using vx by (simp add: month_no_eq)
        with ne * nx show ?thesis by simp
      next
        assume "month_no x = month_no (last xs)"
        then show ?thesis using vx by (simp add: month_no_eq)
      qed
    qed
    have "filter (\<lambda>d. month d = month (hd xs)) xs = filter (\<lambda>d. month_no d = month_no (hd xs)) xs"
      by (rule filter_cong) (simp_all add: fst)
    moreover have "filter (\<lambda>d. month d = month (last xs)) xs =
        filter (\<lambda>d. month_no d = month_no (last xs)) xs"
      by (rule filter_cong) (simp_all add: snd)
    moreover have "filter (\<lambda>d. month_no d = month_no (hd xs)) xs
        @ filter (\<lambda>d. month_no d = month_no (last xs)) xs = xs"
      by (rule filter_two_values [OF msorted]) (use two nx in simp_all)
    ultimately show "filter (\<lambda>d. month d = month (hd xs)) xs
        @ filter (\<lambda>d. month d = month (last xs)) xs = xs"
      by simp
    assume d: "d \<in> set xs"
    have vd: "valid_date d" "valid_date (hd xs)" "valid_date (last xs)"
      using assms(3) d hd last by simp_all
    show "(month d = month (hd xs)) = (year d = year (hd xs) \<and> month d = month (hd xs))
           \<and> (month d = month (last xs)) = (year d = year (last xs) \<and> month d = month (last xs))"
      using fst [OF d] snd [OF d] vd by (auto simp add: month_no_eq)
  }
  {
    assume eq: "month (hd xs) = month (last xs)" and d: "d \<in> set xs"
    have "month_no (last xs) \<noteq> month_no (hd xs) + 1"
      using month_no_next [of "hd xs" "last xs"] assms(3) hd last eq by auto
    with close between [OF last] have "month_no (last xs) = month_no (hd xs)"
      by simp
    with between [OF d] have "month_no d = month_no (hd xs)" by simp
    then show "year d = year (hd xs) \<and> month d = month (hd xs)"
      using assms(3) d hd by (simp add: month_no_eq)
  }
qed

section \<open>The working days of a week\<close>

lemma workdays_facts:
  assumes w: "week_days today week = Inr days"
  shows "sorted_wrt (\<lambda>a b. toordinal a < toordinal b) (filter P days)"
    and "\<forall>d\<in>set (filter P days). valid_date d"
    and "\<forall>a\<in>set (filter P days). \<forall>b\<in>set (filter P days). toordinal b < toordinal a + 28"
    and "distinct (filter P days)"
proof -
  show s: "sorted_wrt (\<lambda>a b. toordinal a < toordinal b) (filter P days)"
    by (rule sorted_wrt_filter [OF week_sorted [OF w]])
  show "\<forall>d\<in>set (filter P days). valid_date d"
    using week_days_Inr(2) [OF w] by simp
  show "\<forall>a\<in>set (filter P days). \<forall>b\<in>set (filter P days). toordinal b < toordinal a + 28"
    using week_span [OF w] by simp
  from s have "sorted_wrt (<) (map toordinal (filter P days))"
    by (simp add: sorted_wrt_map)
  then have "distinct (map toordinal (filter P days))"
    by (simp add: strict_sorted_iff)
  then show "distinct (filter P days)"
    by (rule distinct_map [THEN iffD1, THEN conjunct1])
qed

lemma get_list_of_days_unfold:
  assumes "week_days today week = Inr days" "filter (is_workday cfg) days = workdays"
    "workdays \<noteq> []"
  shows "get_list_of_days cfg today week =
     (if month (hd workdays) \<noteq> month (last workdays)
      then Inr [filter (\<lambda>d. month d = month (hd workdays)) workdays,
                filter (\<lambda>d. month d = month (last workdays)) workdays]
      else Inr [workdays])"
  using assms by (cases workdays) (simp_all add: get_list_of_days_def Let_def)

lemma week_18: "week_days example_today 18 = Inr week_18"
  by code_simp

text \<open>
  Claim C8. When the seven dates of the week exist and the ISO weekday of none of them is
  in the configured \<open>work_days\<close>, the list of working days is empty and
  \<open>get_list_of_days\<close> fails with \<open>IndexError\<close>, raised by \<open>work_days[0]\<close>; it does
  not return an empty split.
\<close>

theorem get_list_of_days_no_workday:
  assumes "week_days today week = Inr days"
    and "set (map (\<lambda>d. iso_weekday (isocalendar d)) days) \<inter> set (work_days cfg) = {}"
  shows "filter (is_workday cfg) days = [] \<and> get_list_of_days cfg today week = Inl IndexError"
proof -
  from assms(2) have "filter (is_workday cfg) days = []"
    by (auto simp add: filter_empty_conv is_workday_def)
  with assms(1) show ?thesis
    by (simp add: get_list_of_days_def)
qed

theorem get_list_of_days_no_workday_witness:
  "week_days example_today 18 = Inr week_18 \<and>
   set (map (\<lambda>d. iso_weekday (isocalendar d)) week_18)
     \<inter> set (work_days (config_dict may_day\<lparr>work_days := []\<rparr>)) = {} \<and>
   filter (is_workday (config_dict may_day\<lparr>work_days := []\<rparr>)) week_18 = [] \<and>
   get_list_of_days (config_dict may_day\<lparr>work_days := []\<rparr>) example_today 18 = Inl IndexError"
proof -
  have h: "set (map (\<lambda>d. iso_weekday (isocalendar d)) week_18)
     \<inter> set (work_days (config_dict may_day\<lparr>work_days := []\<rparr>)) = {}"
    by simp
  show ?thesis
    using week_18 h get_list_of_days_no_workday [OF week_18 h] by simp
qed

text \<open>
  Claim C1. When the seven dates of the week exist and at least one of them is a working
  day, \<open>get_list_of_days\<close> returns groups whose concatenation is the list of the
  week's dates whose ISO weekday is in the configured \<open>work_days\<close>, in the order of
  the week: it is increasing in date, so no date is repeated, and being equal to the
  filtered list it leaves none out.
\<close>

theorem get_list_of_days_concat:
  assumes "week_days today week = Inr days" and "filter (is_workday cfg) days \<noteq> []"
  shows "length days = 7 \<and>
         (\<exists>groups. get_list_of_days cfg today week = Inr groups \<and>
           concat groups = filter (\<lambda>d. iso_weekday (isocalendar d) \<in> set (work_days cfg)) days \<and>
           sorted_wrt (\<lambda>a b. toordinal a < toordinal b) (concat groups) \<and>
           distinct (concat groups))"
proof -
  from week_days_Inr(1) [OF assms(1)] have "length (map toordinal days) = 7"
    by simp
  then have len: "length days = 7"
    by simp
  define workdays where "workdays = filter (is_workday cfg) days"
  have ne: "workdays \<noteq> []"
    using assms(2) by (simp add: workdays_def)
  note f = workdays_facts [OF assms(1), of "is_workday cfg", folded workdays_def]
  note u = get_list_of_days_unfold [OF assms(1) workdays_def [symmetric] ne]
  have w: "workdays = filter (\<lambda>d. iso_weekday (isocalendar d) \<in> set (work_days cfg)) days"
    by (simp add: workdays_def is_workday_def [abs_def])
  show ?thesis
  proof (cases "month (hd workdays) \<noteq> month (last workdays)")
    case True
    from split_months(1) [OF ne f(1,2,3) True]
    have "concat [filter (\<lambda>d. month d = month (hd workdays)) workdays,
                  filter (\<lambda>d. month d = month (last workdays)) workdays] = workdays"
      by simp
    with True u f(1,4) w len show ?thesis
      by (metis (no_types, lifting))
  next
    case False
    then have "get_list_of_days cfg today week = Inr [workdays]"
      using u by simp
    moreover have "concat [workdays] = workdays" by simp
    ultimately show ?thesis
      using f(1,4) w len by (metis (no_types, lifting))
  qed
qed

theorem get_list_of_days_concat_witness:
  "week_days example_today 18 = Inr week_18 \<and>
   filter (is_workday (config_dict may_day)) week_18 \<noteq> [] \<and>
   length week_18 = 7 \<and>
   (\<exists>groups. get_list_of_days (config_dict may_day) example_today 18 = Inr groups \<and>
      concat groups = filter (\<lambda>d. iso_weekday (isocalendar d) \<in> set (work_days (config_dict may_day))) week_18 \<and>
      sorted_wrt (\<lambda>a b. toordinal a < toordinal b) (concat groups) \<and>
      distinct (concat groups))"
proof -
  have h: "filter (is_workday (config_dict may_day)) week_18 \<noteq> []"
    by code_simp
  show ?thesis
    using week_18 h get_list_of_days_concat [OF week_18 h] by simp
qed

text \<open>
  Claim C2. When the seven dates of the week exist and the list of working days is not
  empty: if two working days lie in different calendar months, \<open>get_list_of_days\<close>
  returns exactly two groups, the working days in the calendar month of the first one and
  then those in the calendar month of the last one; otherwise it returns exactly one group,
  all the working days. In both cases the groups, one after the other, are the list of
  working days itself, which is increasing in date: each group is a run of consecutive
  working days in date order, and no group is empty.
\<close>

theorem get_list_of_days_groups:
  assumes "week_days today week = Inr days" and "workdays = filter (is_workday cfg) days"
    and "workdays \<noteq> []"
  shows "\<exists>groups. get_list_of_days cfg today week = Inr groups \<and>
           groups =
             (if \<exists>a\<in>set workdays. \<exists>b\<in>set workdays. \<not> same_month a b
              then [filter (\<lambda>d. same_month d (hd workdays)) workdays,
                    filter (\<lambda>d. same_month d (last workdays)) workdays]
              else [workdays]) \<and>
           concat groups = workdays \<and> [] \<notin> set groups \<and>
           sorted_wrt (\<lambda>a b. toordinal a < toordinal b) workdays"
proof -
  note f = workdays_facts [OF assms(1), of "is_workday cfg", folded assms(2)]
  note u = get_list_of_days_unfold [OF assms(1) assms(2) [symmetric] assms(3)]
  have hd: "hd workdays \<in> set workdays" and last: "last workdays \<in> set workdays"
    using assms(3) by simp_all
  show ?thesis
  proof (cases "month (hd workdays) \<noteq> month (last workdays)")
    case True
    have two: "\<exists>a\<in>set workdays. \<exists>b\<in>set workdays. \<not> same_month a b"
      using True hd last by (auto simp add: same_month_def)
    have g1: "filter (\<lambda>d. month d = month (hd workdays)) workdays =
        filter (\<lambda>d. same_month d (hd workdays)) workdays"
      by (rule filter_cong [OF refl])
        (use split_months(2) [OF assms(3) f(1,2,3) True] in \<open>simp add: same_month_def\<close>)
    have g2: "filter (\<lambda>d. month d = month (last workdays)) workdays =
        filter (\<lambda>d. same_month d (last workdays)) workdays"
      by (rule filter_cong [OF refl])
        (use split_months(2) [OF assms(3) f(1,2,3) True] in \<open>simp add: same_month_def\<close>)
    have c: "filter (\<lambda>d. same_month d (hd workdays)) workdays
        @ filter (\<lambda>d. same_month d (last workdays)) workdays = workdays"
      using split_months(1) [OF assms(3) f(1,2,3) True] unfolding g1 g2 .
    have n1: "filter (\<lambda>d. same_month d (hd workdays)) workdays \<noteq> []"
      using hd by (auto simp add: filter_empty_conv same_month_def)
    have n2: "filter (\<lambda>d. same_month d (last workdays)) workdays \<noteq> []"
      using last by (auto simp add: filter_empty_conv same_month_def)
    have "get_list_of_days cfg today week =
        Inr [filter (\<lambda>d. same_month d (hd workdays)) workdays,
             filter (\<lambda>d. same_month d (last workdays)) workdays]"
      using u True by (simp add: g1 g2)
    with two c n1 n2 f(1) show ?thesis
      by simp
  next
    case False
    then have eq: "month (hd workdays) = month (last workdays)" by simp
    have one: "\<not> (\<exists>a\<in>set workdays. \<exists>b\<in>set workdays. \<not> same_month a b)"
      using split_months(3) [OF assms(3) f(1,2,3) eq] by (simp add: same_month_def)
    have "get_list_of_days cfg today week = Inr [workdays]"
      using u eq by simp
    with one assms(3) f(1) show ?thesis
      by simp
  qed
qed

lemma work_week_18: "filter (is_workday (config_dict may_day)) week_18 = work_week_18"
  by code_simp

theorem get_list_of_days_groups_witness:
  "week_days example_today 18 = Inr week_18 \<and>
   work_week_18 = filter (is_workday (config_dict may_day)) week_18 \<and>
   work_week_18 \<noteq> [] \<and>
   (\<exists>a\<in>set work_week_18. \<exists>b\<in>set work_week_18. \<not> same_month a b) \<and>
   get_list_of_days (config_dict may_day) example_today 18 =
     Inr [filter (\<lambda>d. same_month d (hd work_week_18)) work_week_18,
          filter (\<lambda>d. same_month d (last work_week_18)) work_week_18] \<and>
   filter (\<lambda>d. same_month d (hd work_week_18)) work_week_18 =
     [\<lparr>year = 2024, month = 4, day = 29\<rparr>, \<lparr>year = 2024, month = 4, day = 30\<rparr>] \<and>
   filter (\<lambda>d. same_month d (last work_week_18)) work_week_18 =
     [\<lparr>year = 2024, month = 5, day = 1\<rparr>, \<lparr>year = 2024, month = 5, day = 2\<rparr>,
      \<lparr>year = 2024, month = 5, day = 3\<rparr>]"
proof -
  have h2: "work_week_18 = filter (is_workday (config_dict may_day)) week_18"
    by (simp only: work_week_18)
  have h3: "work_week_18 \<noteq> []"
    by (simp add: work_week_18_def)
  have two: "\<exists>a\<in>set work_week_18. \<exists>b\<in>set work_week_18. \<not> same_month a b"
    by (rule bexI [of _ "\<lparr>year = 2024, month = 4, day = 29\<rparr>"],
        rule bexI [of _ "\<lparr>year = 2024, month = 5, day = 1\<rparr>"])
      (simp_all add: work_week_18_def same_month_def)
  have g1: "filter (\<lambda>d. same_month d (hd work_week_18)) work_week_18 =
     [\<lparr>year = 2024, month = 4, day = 29\<rparr>, \<lparr>year = 2024, month = 4, day = 30\<rparr>]"
    by (simp add: work_week_18_def same_month_def)
  have g2: "filter (\<lambda>d. same_month d (last work_week_18)) work_week_18 =
     [\<lparr>year = 2024, month = 5, day = 1\<rparr>, \<lparr>year = 2024, month = 5, day = 2\<rparr>,
      \<lparr>year = 2024, month = 5, day = 3\<rparr>]"
    by (simp add: work_week_18_def same_month_def)
  from get_list_of_days_groups [OF week_18 h2 h3] two
  have "get_list_of_days (config_dict may_day) example_today 18 =
     Inr [filter (\<lambda>d. same_month d (hd work_week_18)) work_week_18,
          filter (\<lambda>d. same_month d (last work_week_18)) work_week_18]"
    by auto
  with week_18 h2 h3 two g1 g2 show ?thesis
    by (simp only: simp_thms)
qed

section \<open>The report\<close>






section \<open>The line of a day\<close>

lemma weekday_iso: "weekday d = iso_weekday (isocalendar d) - 1"
proof -
  have m: "(t - isoweek1monday y) mod 7 = (t + 6) mod 7" for t y
    using isoweek1monday_monday [of y] by presburger
  show ?thesis
    unfolding isocalendar_unfold by (simp add: m weekday_def)
qed







text \<open>
  Claim C10, as stated, fails: the line of a day can contain the text of the vacation
  label, because that text can occur in the rest of the line. With the same label for
  holidays and vacations, the line of a holiday contains it.
\<close>

theorem vacation_label_counterexample:
  "sublist (vacation_spelling (config_dict may_day\<lparr>vacation_spelling := ''Free'', holiday_spelling := ''Free''\<rparr>))
     (format_day (config_dict may_day\<lparr>vacation_spelling := ''Free'', holiday_spelling := ''Free''\<rparr>)
        \<lparr>year = 2024, month = 5, day = 1\<rparr>)"
proof -
  have "format_day (config_dict may_day\<lparr>vacation_spelling := ''Free'', holiday_spelling := ''Free''\<rparr>)
        \<lparr>year = 2024, month = 5, day = 1\<rparr> = ''Wed-01:05.: '' @ ''Free'' @ []"
    by code_simp
  moreover have "vacation_spelling (config_dict may_day\<lparr>vacation_spelling := ''Free'', holiday_spelling := ''Free''\<rparr>) = ''Free''"
    by (simp add: config_dict_def)
  ultimately show ?thesis
    by (simp only: sublist_appendI)
qed

lemma is_workday_vacation: "is_workday (cfg\<lparr>vacation_spelling := v\<rparr>) = is_workday cfg"
  by (simp add: is_workday_def fun_eq_iff)

lemma format_day_vacation: "format_day (cfg\<lparr>vacation_spelling := v\<rparr>) = format_day cfg"
  by (simp add: format_day_def is_holiday_def is_vacation_def fun_eq_iff)

lemma sub_report_vacation: "sub_report (cfg\<lparr>vacation_spelling := v\<rparr>) = sub_report cfg"
  by (rule ext, unfold sub_report_def format_day_vacation, rule refl)

lemma get_list_of_days_vacation:
  "get_list_of_days (cfg\<lparr>vacation_spelling := v\<rparr>) today week = get_list_of_days cfg today week"
  unfolding get_list_of_days_def is_workday_vacation by (rule refl)

lemma get_reports_vacation:
  "get_reports (cfg\<lparr>vacation_spelling := v\<rparr>) today week = get_reports cfg today week"
  unfolding get_reports_def get_list_of_days_vacation sub_report_vacation by (rule refl)

text \<open>
  Claim C10, amended. \<open>is_vacation\<close> is constantly false, so \<open>format_day\<close> never
  takes the vacation branch: every line ends with the holiday label or with the start and
  end hours, and the configured vacation label influences no line and no report:
  \<open>format_day\<close>, \<open>get_reports\<close>, \<open>print_report\<close> and \<open>main\<close> give the same result
  whatever the label is.
\<close>

theorem vacation_never_used:
  "is_vacation cfg d = False \<and>
   (format_day cfg d =
      strftime_a d @ ''-'' @ strftime_d d @ '':'' @ strftime_m d @ ''.: '' @ holiday_spelling cfg \<or>
    format_day cfg d =
      strftime_a d @ ''-'' @ strftime_d d @ '':'' @ strftime_m d @ ''.: ''
        @ ''Start: '' @ start_hour cfg @ ''; End: '' @ end_hour cfg) \<and>
   format_day (cfg\<lparr>vacation_spelling := v\<rparr>) d = format_day cfg d \<and>
   get_reports (cfg\<lparr>vacation_spelling := v\<rparr>) today week = get_reports cfg today week \<and>
   print_report (cfg\<lparr>vacation_spelling := v\<rparr>) today week out = print_report cfg today week out \<and>
   main (cfg\<lparr>vacation_spelling := v\<rparr>) today week_delta out = main cfg today week_delta out"
proof -
  have "format_day cfg d =
      strftime_a d @ ''-'' @ strftime_d d @ '':'' @ strftime_m d @ ''.: '' @ holiday_spelling cfg \<or>
    format_day cfg d =
      strftime_a d @ ''-'' @ strftime_d d @ '':'' @ strftime_m d @ ''.: ''
        @ ''Start: '' @ start_hour cfg @ ''; End: '' @ end_hour cfg"
    by (simp add: format_day_def Let_def is_vacation_def)
  then show ?thesis
    by (simp add: is_vacation_def format_day_vacation get_reports_vacation print_report_def
          main_def)
qed

section \<open>Printing\<close>






section \<open>Failing to load the configuration\<close>



section \<open>Week numbers and the dates of a week\<close>

lemma calendar_ends:
  "days_before_year 1 = 0" "isoweek1monday 1 = 1" "days_before_year 10000 = 3652059"
  "isoweek1monday 10000 = 3652062" "isoweek1monday 9999 = 3651698"
  by code_simp+

lemma current_year_range:
  assumes "valid_date today"
  shows "MINYEAR \<le> get_current_year today \<and> get_current_year today \<le> MAXYEAR"
proof -
  define g t where "g = year today" and "t = toordinal today"
  from assms have g: "1 \<le> g" "g \<le> 9999"
    and f: "1 \<le> month today" "month today \<le> 12" "1 \<le> day today"
      "day today \<le> days_in_month (year today) (month today)"
    by (simp_all add: valid_date_def g_def MINYEAR_def MAXYEAR_def)
  have t: "days_before_year g < t" "t \<le> days_before_year (g + 1)"
    using ymd2ord_in_year [OF f] by (simp_all add: g_def t_def toordinal_def)
  have lo: "\<not> (t - isoweek1monday g) div 7 < 0" if "g = 1"
    using t that by (simp add: calendar_ends)
  have hi: "\<not> isoweek1monday (g + 1) \<le> t" if "g = 9999"
    using t that by (simp add: calendar_ends)
  have eq: "get_current_year today =
      (if (t - isoweek1monday g) div 7 < 0 then g - 1
       else if 52 \<le> (t - isoweek1monday g) div 7 \<and> isoweek1monday (g + 1) \<le> t then g + 1
       else g)"
    unfolding get_current_year_def isocalendar_unfold g_def [symmetric] t_def [symmetric]
    by simp
  from g consider "g = 1" | "g = 9999" | "1 < g" "g < 9999"
    by atomize_elim linarith
  then show ?thesis
  proof cases
    case 1
    with lo show ?thesis
      unfolding eq by (simp add: MINYEAR_def MAXYEAR_def)
  next
    case 2
    with hi show ?thesis
      unfolding eq by (simp add: MINYEAR_def MAXYEAR_def)
  next
    case 3
    then show ?thesis
      unfolding eq by (simp add: MINYEAR_def MAXYEAR_def)
  qed
qed

lemma week_check:
  "valid_iso_week y wk \<longleftrightarrow>
     \<not> (\<not> (0 < wk \<and> wk < 53) \<and>
        \<not> (wk = 53 \<and> (let first_weekday = ymd2ord y 1 1 mod 7
                       in first_weekday = 4 \<or> (first_weekday = 3 \<and> is_leap y))))"
  by (auto simp add: valid_iso_week_def iso_weeks_in_year long_year_def Let_def)

lemma fromisocalendar_ok:
  assumes y: "MINYEAR \<le> y" "y \<le> MAXYEAR" and v: "valid_iso_week y wk"
    and k: "1 \<le> k" "k \<le> 7" and r: "y < MAXYEAR \<or> wk < 52"
  shows "\<exists>d. fromisocalendar y wk k = Inr d"
proof -
  define n where "n = isoweek1monday y + ((wk - 1) * 7 + (k - 1))"
  obtain g m d where o: "ord2ymd n = (g, m, d)"
    by (cases "ord2ymd n") auto
  from ord2ymd_correct [of n] o have f: "1 \<le> m" "m \<le> 12" "1 \<le> d" "d \<le> days_in_month g m"
    and e: "ymd2ord g m d = n"
    by simp_all
  define bg bg1 w0 w1 where "bg = days_before_year g" and "bg1 = days_before_year (g + 1)"
    and "w0 = isoweek1monday y" and "w1 = isoweek1monday (y + 1)"
  have t: "bg < n" "n \<le> bg1"
    using ymd2ord_in_year [OF f] e by (simp_all add: bg_def bg1_def)
  have vb: "1 \<le> wk" "w0 + 7 * wk \<le> w1"
    using valid_iso_week_bounds [OF v] by (simp_all add: w0_def w1_def)
  have n: "n = w0 + 7 * (wk - 1) + (k - 1)"
    by (simp add: n_def w0_def)
  have y': "1 \<le> y" "y \<le> 9999"
    using y by (simp_all add: MINYEAR_def MAXYEAR_def)
  have "1 \<le> g"
  proof (rule ccontr)
    assume "\<not> 1 \<le> g"
    then have *: "g + 1 \<le> 1" by simp
    have "bg1 \<le> 0"
      using days_before_year_mono [OF *] * unfolding bg1_def calendar_ends
      by (simp add: order_trans [rotated])
    moreover have "1 \<le> w0"
      using isoweek1monday_mono [OF y'(1)] y'(1) unfolding w0_def calendar_ends
      by (simp add: order_trans [rotated])
    ultimately show False
      using t n vb k by simp
  qed
  moreover have "g \<le> 9999"
  proof (rule ccontr)
    assume "\<not> g \<le> 9999"
    then have *: "10000 \<le> g" by simp
    have b: "3652059 \<le> bg"
      using days_before_year_mono [OF *] * unfolding bg_def calendar_ends
      by (simp add: order_trans [rotated])
    from r show False
    proof
      assume "y < MAXYEAR"
      then have **: "y + 1 \<le> 9999" by (simp add: MAXYEAR_def)
      have "w1 \<le> 3651698"
        using isoweek1monday_mono [OF **] ** unfolding w1_def calendar_ends
        by (simp add: order_trans)
      with b t n vb k show False by simp
    next
      assume "wk < 52"
      moreover have "w0 \<le> 3651698"
        using isoweek1monday_mono [OF y'(2)] y'(2) unfolding w0_def calendar_ends
        by (simp add: order_trans)
      ultimately show False
        using b t n vb k by simp
    qed
  qed
  ultimately have "new_date g m d = Inr \<lparr>year = g, month = m, day = d\<rparr>"
    using f by (simp add: new_date_def MINYEAR_def MAXYEAR_def)
  moreover have "isoweek_to_gregorian y wk k = Inr (ord2ymd n)"
    using y k v [unfolded week_check]
    by (simp add: isoweek_to_gregorian_def n_def Let_def)
  ultimately show ?thesis
    using o by (simp add: fromisocalendar_def)
qed


lemma collect_all_Inr:
  assumes "\<forall>k\<in>set ks. \<exists>d. f k = Inr d"
  shows "\<exists>ds. collect (map f ks) = Inr ds"
  using assms by (induction ks) auto

lemma week_days_ok:
  assumes "valid_date today" "valid_iso_week (get_current_year today) week"
    "get_current_year today < MAXYEAR \<or> week < 52"
  shows "\<exists>ds. week_days today week = Inr ds"
  unfolding week_days_def DAYS_IN_A_WEEK_def get_day_from_week_def Let_def
proof (rule collect_all_Inr, rule ballI)
  fix k :: int assume "k \<in> set [1..7]"
  then have "1 \<le> k" "k \<le> 7" by simp_all
  with current_year_range [OF assms(1)] assms(2,3)
  show "\<exists>d. fromisocalendar (get_current_year today) week k = Inr d"
    by (simp add: fromisocalendar_ok)
qed





text \<open>
  Claim C4, as stated, fails for one week: in the year 9999, week 52 is a valid ISO week,
  but its Saturday and Sunday lie after 9999-12-31, the last date that exists, so the
  list of its dates is not built.
\<close>

theorem week_days_counterexample:
  "valid_date last_year_today \<and> get_current_year last_year_today = 9999 \<and>
   valid_iso_week (get_current_year last_year_today) 52 \<and>
   get_day_from_week last_year_today 52 5 = Inr \<lparr>year = 9999, month = 12, day = 31\<rparr> \<and>
   get_day_from_week last_year_today 52 6 = Inl ValueError \<and>
   week_days last_year_today 52 = Inl ValueError"
  by code_simp

text \<open>
  Claim C4, amended. For every valid ISO week number of the current ISO year, other than
  week 52 of the year 9999, the list \<open>week_days\<close> holds exactly 7 dates, consecutive
  days (their ordinals go up by one from the first), whose ISO calendar entries are the
  current ISO year, the week, and the weekdays 1 to 7 in order, named Monday to Sunday.
\<close>

theorem week_days_valid_week:
  assumes "valid_date today" and "valid_iso_week (get_current_year today) week"
    and "get_current_year today < MAXYEAR \<or> week < 52"
  shows "\<exists>ds. week_days today week = Inr ds \<and> length ds = 7 \<and>
           map toordinal ds = map (\<lambda>k. toordinal (hd ds) + (k - 1)) [1..7] \<and>
           map isocalendar ds = map (IsoCalendarDate (get_current_year today) week) [1..7] \<and>
           map strftime_a ds = DAYNAMES \<and>
           list_all valid_date ds"
proof -
  define y where "y = get_current_year today"
  from week_days_ok [OF assms] obtain ds where ds: "week_days today week = Inr ds"
    by auto
  note o = week_days_Inr(1) [OF ds, folded y_def]
  note vd = week_days_Inr(2) [OF ds]
  from o have "length (map toordinal ds) = 7"
    by simp
  then have len: "length ds = 7"
    by simp
  then have "ds \<noteq> []" by auto
  then have "toordinal (hd ds) = map toordinal ds ! 0"
    by (simp add: hd_conv_nth)
  then have h: "toordinal (hd ds) = isoweek1monday y + (week - 1) * 7"
    unfolding o by (simp add: upto_1_7)
  have ord: "map toordinal ds = map (\<lambda>k. toordinal (hd ds) + (k - 1)) [1..7]"
    unfolding h o by simp
  have nth: "toordinal (ds ! i) = isoweek1monday y + (week - 1) * 7 + ([1..7] ! i - 1)"
    if "i < 7" for i
  proof -
    have "toordinal (ds ! i) = map toordinal ds ! i"
      using that len by simp
    also have "\<dots> = isoweek1monday y + (week - 1) * 7 + ([1..7] ! i - 1)"
      unfolding o using that by simp
    finally show ?thesis .
  qed
  have rng: "1 \<le> [1..7] ! i \<and> [1..7] ! i \<le> (7 :: int)" if "i < 7" for i
    using that by simp
  have iso: "isocalendar (ds ! i) = IsoCalendarDate y week ([1..7] ! i)" if "i < 7" for i
  proof (rule isocalendar_week_day)
    show "valid_iso_week y week"
      using assms(2) by (simp add: y_def)
    show "1 \<le> [1..7] ! i" "[1..7] ! i \<le> (7 :: int)"
      using rng [OF that] by simp_all
    have "valid_date (ds ! i)"
      using vd that len by simp
    then show "1 \<le> month (ds ! i)" "month (ds ! i) \<le> 12" "1 \<le> day (ds ! i)"
      "day (ds ! i) \<le> days_in_month (year (ds ! i)) (month (ds ! i))"
      by (simp_all add: valid_date_def)
    show "toordinal (ds ! i) = isoweek1monday y + (week - 1) * 7 + ([1..7] ! i - 1)"
      by (rule nth [OF that])
  qed
  have isos: "map isocalendar ds = map (IsoCalendarDate y week) [1..7]"
    by (rule nth_equalityI) (use len iso in simp_all)
  have names: "map strftime_a ds = DAYNAMES"
  proof (rule nth_equalityI)
    show "length (map strftime_a ds) = length DAYNAMES"
      using len by (simp add: DAYNAMES_def)
  next
    fix i assume "i < length (map strftime_a ds)"
    then have i: "i < 7" using len by simp
    have "weekday (ds ! i) = [1..7] ! i - 1"
      by (simp add: weekday_iso iso [OF i])
    also have "\<dots> = int i"
      using i by simp
    finally show "map strftime_a ds ! i = DAYNAMES ! i"
      using i len by (simp add: strftime_a_def)
  qed
  from ds len ord isos names vd show ?thesis
    by (simp add: y_def list_all_iff)
qed

theorem week_days_valid_week_witness:
  "valid_date example_today \<and> valid_iso_week (get_current_year example_today) 18 \<and>
   get_current_year example_today < MAXYEAR \<and>
   (\<exists>ds. week_days example_today 18 = Inr ds \<and> length ds = 7 \<and>
           map toordinal ds = map (\<lambda>k. toordinal (hd ds) + (k - 1)) [1..7] \<and>
           map isocalendar ds = map (IsoCalendarDate (get_current_year example_today) 18) [1..7] \<and>
           map strftime_a ds = DAYNAMES \<and>
           list_all valid_date ds) \<and>
   week_days example_today 18 = Inr week_18"
proof -
  have v: "valid_date example_today" and w: "valid_iso_week (get_current_year example_today) 18"
    and y: "get_current_year example_today < MAXYEAR"
    by code_simp+
  from v w y week_days_valid_week [OF v w disjI1 [OF y]] week_18 show ?thesis
    by (intro conjI)
qed

end
